theory Spec2Isabelle
  imports Main
begin

section \<open>AsyncRefCount: the data model\<close>

text \<open>
  The class \<open>AsyncRefCount\<close> of \<open>src/async-ref-count.ts\<close> is modelled as a transition
  system. JavaScript runs one job at a time, so every stretch of code between two
  suspension points (\<open>await\<close>, a promise reaction) is one atomic step on an explicit
  state. What the environment decides (when \<open>open()\<close> and a handle's \<open>close()\<close> are
  called, when the opener and the supplied close operation settle, when a caller's signal
  aborts, which of the ready continuations runs next) is the event of the step. The
  opener and the supplied close operation are taken not to call back into the instance
  while they run synchronously, and the global \<open>reportError\<close> is taken to return normally.
\<close>

text \<open>JavaScript values that occur as resource values, close reasons and errors.
  \<open>DOMAbort c\<close> is the \<open>DOMException\<close> that controller \<open>c\<close> creates when it is aborted
  without a reason; \<open>TypeError\<close> is what reading a property of \<open>undefined\<close> throws.\<close>

datatype jsval = Undefined | Str string | Error string | TypeError | DOMAbort nat

datatype 'a pstate = Pending | Fulfilled 'a | Rejected jsval

text \<open>\<open>CloseClosableValue\<close>: the close operation that the opener's result supplies. It is
  environment code; the model keeps its identity and how many times it calls
  \<open>acquireHook\<close> before it returns. Its later behaviour is given by events.\<close>

datatype closefn = CloseFn (fn_id: nat) (sync_acquires: nat)

text \<open>\<open>ClosableValue\<close>\<close>

record closable =
  cvalue :: jsval
  cclose :: closefn

text \<open>\<open>CloseHook\<close>: the resolvers of the hook promise of one close invocation, and the
  signal of that invocation's controller.\<close>

record hook =
  hk_close :: nat
  hk_signal :: nat

text \<open>What the local variable \<open>hookPromise\<close> of \<open>#close\<close> refers to (lines 99, 106, 115,
  117); \<open>None\<close> is \<open>undefined\<close>.\<close>

datatype hookp = HookRaw | CatchOfClose | CatchOfHook

text \<open>One call of \<open>#close\<close>, that is one invocation of the supplied close operation.
  \<open>c_ret\<close> is the promise \<open>Promise.try(close, ...)\<close> (line 101), \<open>c_hook\<close> the promise of
  \<open>Promise.withResolvers\<close> (line 105), \<open>c_caught\<close> says that the reaction of line 115 or
  117 has run, \<open>c_done\<close> that the \<open>finally\<close> callback of line 124 has run, which settles
  the promise stored in \<open>#closePromise\<close>. \<open>c_acquired\<close> logs what every call of the
  \<open>acquireHook\<close> closure of this invocation returned or threw.\<close>

record close_rec =
  c_fn :: nat
  c_reason :: jsval
  c_ctrl :: nat
  c_hookPromise :: "hookp option"
  c_acquired :: "(jsval + hook) list"
  c_ret :: "unit pstate"
  c_hook :: "unit pstate"
  c_caught :: bool
  c_done :: bool

text \<open>One invocation of the opener: its controller (line 147) and the promise stored in
  \<open>#openPromise\<close> (line 149).\<close>

record open_rec =
  o_ctrl :: nat
  o_state :: "closable pstate"

text \<open>\<open>DerivedClosableValue\<close>, with the \<open>closed\<close> flag of its close function (line 173).\<close>

record handle =
  h_value :: jsval
  h_close :: closefn
  h_closed :: bool

text \<open>The caller's optional \<open>signal\<close>.\<close>

datatype callsig = NoSignal | Live | Aborted jsval

text \<open>A call of \<open>open()\<close>: where it is suspended, or how it settled.\<close>

datatype outcome = Returned nat | Threw jsval

datatype phase =
    WaitClose nat
  | WaitOpen nat
  | Safeguard1 jsval "nat option"
  | Safeguard2 jsval nat
  | Done outcome

record otask =
  t_signal :: callsig
  t_phase :: phase

text \<open>A call of a handle's \<open>close()\<close>: awaiting \<open>#close\<close> (line 186), or settled
  (\<open>None\<close>: fulfilled; \<open>Some e\<close>: rejected with \<open>e\<close>).\<close>

datatype cphase = CWait nat | CDone "jsval option"

record ctask =
  ct_handle :: nat
  ct_phase :: cphase

text \<open>The instance: its five private fields, and the objects they refer to.
  \<open>ctrls\<close> holds every \<open>AbortController\<close> the instance created (\<open>None\<close>: not aborted;
  \<open>Some r\<close>: aborted with reason \<open>r\<close>); \<open>opens\<close> and \<open>closes\<close> log the invocations of the
  opener and of the supplied close operation; \<open>reported\<close> logs the calls of
  \<open>reportError\<close>.\<close>

record state =
  count :: int
  openController :: "nat option"
  openPromise :: "nat option"
  closeController :: "nat option"
  closePromise :: "nat option"
  ctrls :: "jsval option list"
  opens :: "open_rec list"
  closes :: "close_rec list"
  handles :: "handle list"
  tasks :: "otask list"
  ctasks :: "ctask list"
  reported :: "jsval list"

text \<open>\<open>new AsyncRefCount(open)\<close> (lines 90 to 93).\<close>

definition init :: state where
  "init = \<lparr> count = 0, openController = None, openPromise = None,
            closeController = None, closePromise = None, ctrls = [], opens = [],
            closes = [], handles = [], tasks = [], ctasks = [], reported = [] \<rparr>"

section \<open>The operations\<close>

text \<open>\<open>AbortController.abort(reason)\<close>: no effect on an aborted controller; an
  \<open>undefined\<close> reason becomes a fresh \<open>DOMException\<close>.\<close>

definition abort :: "nat \<Rightarrow> jsval \<Rightarrow> jsval option list \<Rightarrow> jsval option list" where
  "abort c reason cs =
     (if c < length cs \<and> cs ! c = None
      then cs[c := Some (if reason = Undefined then DOMAbort c else reason)]
      else cs)"

definition set_phase :: "nat \<Rightarrow> phase \<Rightarrow> state \<Rightarrow> state" where
  "set_phase t ph s = s\<lparr>tasks := (tasks s)[t := (tasks s ! t)\<lparr>t_phase := ph\<rparr>]\<rparr>"

text \<open>The \<open>acquireHook\<close> closure of \<open>#close\<close> (lines 101 to 112), on the local variable
  \<open>hookPromise\<close>: \<open>k\<close> is the close invocation, \<open>sg\<close> its controller.\<close>

definition acquireHook :: "nat \<Rightarrow> nat \<Rightarrow> hookp option \<Rightarrow> (jsval + hook) \<times> hookp option" where
  "acquireHook k sg hp =
     (if hp \<noteq> None then (Inl (Error ''Close hook locked.''), hp)
      else (Inr \<lparr>hk_close = k, hk_signal = sg\<rparr>, Some HookRaw))"

text \<open>The calls of \<open>acquireHook\<close> that the supplied close operation makes before it
  returns.\<close>

fun acquire_calls :: "nat \<Rightarrow> nat \<Rightarrow> nat \<Rightarrow> hookp option \<Rightarrow> (jsval + hook) list \<times> hookp option" where
  "acquire_calls k sg 0 hp = ([], hp)"
| "acquire_calls k sg (Suc n) hp =
     (let (r, hp') = acquireHook k sg hp;
          (rs, hp'') = acquire_calls k sg n hp'
      in (r # rs, hp''))"

text \<open>\<open>#close(close, reason)\<close> (lines 95 to 133). The result is the index of the new close
  record, which stands for the returned promise \<open>closePromise\<close>.\<close>

definition close_internal :: "closefn \<Rightarrow> jsval \<Rightarrow> state \<Rightarrow> nat \<times> state" where
  "close_internal f reason s =
     (let c = length (ctrls s);
          k = length (closes s);
          (rs, hp) = acquire_calls k c (sync_acquires f) None;
          hp' = (if hp = None then CatchOfClose else CatchOfHook)
      in (k, s\<lparr> ctrls := ctrls s @ [None],
                 closeController := Some c,
                 closePromise := Some k,
                 closes := closes s @
                   [\<lparr> c_fn = fn_id f, c_reason = reason, c_ctrl = c,
                      c_hookPromise = Some hp', c_acquired = rs, c_ret = Pending,
                      c_hook = Pending, c_caught = False, c_done = False \<rparr>] \<rparr>))"

text \<open>Lines 146 to 166: join the open in the slot, or invoke the opener.\<close>

definition start_open :: "state \<Rightarrow> nat \<times> state" where
  "start_open s =
     (case openPromise s of
        Some p \<Rightarrow> (p, s)
      | None \<Rightarrow>
          (let c = length (ctrls s); p = length (opens s)
           in (p, s\<lparr> ctrls := ctrls s @ [None],
                      openController := Some c,
                      openPromise := Some p,
                      opens := opens s @ [\<lparr> o_ctrl = c, o_state = Pending \<rparr>] \<rparr>)))"

text \<open>Lines 144 to 171, up to the \<open>await\<close>.\<close>

definition enter :: "state \<Rightarrow> phase \<times> state" where
  "enter s = (let (p, s') = start_open (s\<lparr>count := count s + 1\<rparr>) in (WaitOpen p, s'))"

text \<open>Lines 136 to 142 and, when no close is in flight, on to line 171.\<close>

definition open_call :: "callsig \<Rightarrow> state \<Rightarrow> phase \<times> state" where
  "open_call sg s =
     (case sg of
        Aborted r \<Rightarrow> (Done (Threw r), s)
      | _ \<Rightarrow>
        (case closePromise s of
           Some k \<Rightarrow>
             (case closeController s of
                None \<Rightarrow> (Done (Threw TypeError), s)
              | Some c \<Rightarrow> (WaitClose k, s\<lparr>ctrls := abort c Undefined (ctrls s)\<rparr>))
         | None \<Rightarrow> enter s))"

text \<open>Lines 173 to 189: the handle is issued.\<close>

definition issue :: "nat \<Rightarrow> closable \<Rightarrow> state \<Rightarrow> state" where
  "issue t cv s =
     set_phase t (Done (Returned (length (handles s))))
       (s\<lparr>handles := handles s @
            [\<lparr> h_value = cvalue cv, h_close = cclose cv, h_closed = False \<rparr>]\<rparr>)"

text \<open>Lines 190 to 203, up to the \<open>await\<close> of line 198 or the \<open>throw\<close> of line 201.\<close>

definition catch_path :: "nat \<Rightarrow> jsval \<Rightarrow> state \<Rightarrow> state" where
  "catch_path t err s =
     (let s1 = s\<lparr>count := count s - 1\<rparr>
      in if count s1 = 0
         then (let s2 = (case openController s1 of
                           None \<Rightarrow> s1
                         | Some c \<Rightarrow> s1\<lparr>ctrls := abort c err (ctrls s1)\<rparr>)
               in set_phase t (Safeguard1 err (openPromise s2)) s2)
         else set_phase t (Done (Threw err)) s1)"

text \<open>The continuation of a suspended \<open>open()\<close> call whose awaited promise has settled.\<close>

definition resume :: "nat \<Rightarrow> state \<Rightarrow> state option" where
  "resume t s =
     (if t < length (tasks s) then
        (case t_phase (tasks s ! t) of
           WaitClose k \<Rightarrow>
             (if k < length (closes s) \<and> c_done (closes s ! k)
              then (let (ph, s') = enter s in Some (set_phase t ph s'))
              else None)
         | WaitOpen p \<Rightarrow>
             (if p < length (opens s) then
                (case o_state (opens s ! p) of
                   Pending \<Rightarrow> None
                 | Fulfilled cv \<Rightarrow> Some (issue t cv s)
                 | Rejected e \<Rightarrow> Some (catch_path t e s))
              else None)
         | Safeguard1 err po \<Rightarrow>
             (case po of
                None \<Rightarrow> Some (set_phase t (Done (Threw err)) s)
              | Some p \<Rightarrow>
                  (if p < length (opens s) then
                     (case o_state (opens s ! p) of
                        Pending \<Rightarrow> None
                      | Rejected e \<Rightarrow> Some (set_phase t (Done (Threw err)) s)
                      | Fulfilled cv \<Rightarrow>
                          (let (k, s') = close_internal (cclose cv) err s
                           in Some (set_phase t (Safeguard2 err k) s')))
                   else None))
         | Safeguard2 err k \<Rightarrow>
             (if k < length (closes s) \<and> c_ret (closes s ! k) \<noteq> Pending
              then Some (set_phase t (Done (Threw err)) s)
              else None)
         | Done r \<Rightarrow> None)
      else None)"

text \<open>Modelled from the spec: \<open>abortify\<close> of the package \<open>@xstd/abortable\<close> (lines 141 and
  169) is not part of the sources. By the spec it races an operation against a
  cancellation token and settles with whichever settles first, the operation's outcome
  or the token's abort reason. \<open>resume\<close> delivers the operation's outcome; \<open>cancel\<close>
  delivers the abort reason of the caller's signal.\<close>

definition cancel :: "nat \<Rightarrow> state \<Rightarrow> state option" where
  "cancel t s =
     (if t < length (tasks s) then
        (case t_signal (tasks s ! t) of
           Aborted r \<Rightarrow>
             (case t_phase (tasks s ! t) of
                WaitClose k \<Rightarrow> Some (set_phase t (Done (Threw r)) s)
              | WaitOpen p \<Rightarrow> Some (catch_path t r s)
              | _ \<Rightarrow> None)
         | _ \<Rightarrow> None)
      else None)"

text \<open>The caller aborts the signal it passed to its \<open>open()\<close> call.\<close>

definition abort_caller :: "nat \<Rightarrow> jsval \<Rightarrow> state \<Rightarrow> state option" where
  "abort_caller t r s =
     (if t < length (tasks s) \<and> t_signal (tasks s ! t) = Live
      then Some (s\<lparr>tasks := (tasks s)[t := (tasks s ! t)\<lparr>t_signal := Aborted r\<rparr>]\<rparr>)
      else None)"

text \<open>The opener's result arrives: the reaction of lines 150 to 156 or 157 to 164 runs,
  which settles the promise in \<open>#openPromise\<close>.\<close>

definition opener_settles :: "nat \<Rightarrow> closable pstate \<Rightarrow> state \<Rightarrow> state option" where
  "opener_settles i res s =
     (if i < length (opens s) \<and> o_state (opens s ! i) = Pending \<and> res \<noteq> Pending then
        (let c = o_ctrl (opens s ! i);
             s1 = s\<lparr>ctrls := abort c Undefined (ctrls s)\<rparr>;
             s2 = (if openController s1 = Some c
                   then (case res of
                           Rejected e \<Rightarrow> s1\<lparr>openController := None, openPromise := None\<rparr>
                         | _ \<Rightarrow> s1\<lparr>openController := None\<rparr>)
                   else s1)
         in Some (s2\<lparr>opens := (opens s2)[i := (opens s2 ! i)\<lparr>o_state := res\<rparr>]\<rparr>))
      else None)"

definition add_ctask :: "nat \<Rightarrow> cphase \<Rightarrow> state \<Rightarrow> state" where
  "add_ctask h ph s = s\<lparr>ctasks := ctasks s @ [\<lparr> ct_handle = h, ct_phase = ph \<rparr>]\<rparr>"

text \<open>A handle's \<open>close(reason)\<close> (lines 177 to 188), up to the \<open>await\<close> or the end.\<close>

definition handle_close :: "nat \<Rightarrow> jsval \<Rightarrow> state \<Rightarrow> state option" where
  "handle_close h reason s =
     (if h < length (handles s) then
        (if h_closed (handles s ! h)
         then Some (add_ctask h (CDone (Some (Error ''Already closed.''))) s)
         else
           (let s1 = s\<lparr> handles := (handles s)[h := (handles s ! h)\<lparr>h_closed := True\<rparr>],
                       count := count s - 1 \<rparr>
            in if count s1 = 0
               then (let (k, s2) = close_internal (h_close (handles s ! h)) reason s1
                     in Some (add_ctask h (CWait k) s2))
               else Some (add_ctask h (CDone None) s1)))
      else None)"

text \<open>How a call comes back to its caller: it raises, or it returns. What a call of an
  \<open>async\<close> function returns is its promise; here that is the index of the call in
  \<open>ctasks\<close>.\<close>

datatype completion = Raises jsval | Returns nat

text \<open>The call expression \<open>handle.close(reason)\<close>. The arrow function of line 177 is
  \<open>async\<close>: the call runs the body up to its first \<open>await\<close> and returns the promise of
  the call; a \<open>throw\<close> in the body rejects that promise and is never raised to the
  caller.\<close>

definition handle_close_call :: "nat \<Rightarrow> jsval \<Rightarrow> state \<Rightarrow> (completion \<times> state) option" where
  "handle_close_call h reason s =
     (case handle_close h reason s of
        None \<Rightarrow> None
      | Some s' \<Rightarrow> Some (Returns (length (ctasks s)), s'))"

text \<open>The continuation of a handle's \<open>close()\<close> after line 186.\<close>

definition resume_close :: "nat \<Rightarrow> state \<Rightarrow> state option" where
  "resume_close c s =
     (if c < length (ctasks s) then
        (case ct_phase (ctasks s ! c) of
           CWait k \<Rightarrow>
             (if k < length (closes s) then
                (case c_ret (closes s ! k) of
                   Pending \<Rightarrow> None
                 | Fulfilled u \<Rightarrow>
                     Some (s\<lparr>ctasks := (ctasks s)[c := (ctasks s ! c)\<lparr>ct_phase := CDone None\<rparr>]\<rparr>)
                 | Rejected e \<Rightarrow>
                     Some (s\<lparr>ctasks := (ctasks s)[c := (ctasks s ! c)\<lparr>ct_phase := CDone (Some e)\<rparr>]\<rparr>))
              else None)
         | CDone r \<Rightarrow> None)
      else None)"

text \<open>The supplied close operation returns, throws, or the promise it returned settles:
  the promise of line 101 settles.\<close>

definition close_settles :: "nat \<Rightarrow> unit pstate \<Rightarrow> state \<Rightarrow> state option" where
  "close_settles k res s =
     (if k < length (closes s) \<and> c_ret (closes s ! k) = Pending \<and> res \<noteq> Pending
      then Some (s\<lparr>closes := (closes s)[k := (closes s ! k)\<lparr>c_ret := res\<rparr>]\<rparr>)
      else None)"

text \<open>The close operation calls \<open>resolve\<close> or \<open>reject\<close> of the hook it acquired. A settled
  promise ignores its resolvers.\<close>

definition hook_settles :: "nat \<Rightarrow> unit pstate \<Rightarrow> state \<Rightarrow> state option" where
  "hook_settles k res s =
     (if k < length (closes s) \<and> c_hookPromise (closes s ! k) = Some CatchOfHook \<and> res \<noteq> Pending
      then (if c_hook (closes s ! k) = Pending
            then Some (s\<lparr>closes := (closes s)[k := (closes s ! k)\<lparr>c_hook := res\<rparr>]\<rparr>)
            else Some s)
      else None)"

text \<open>The reaction of line 115 (no hook taken) or of lines 117 to 121 (hook taken).\<close>

definition close_catch :: "nat \<Rightarrow> state \<Rightarrow> state option" where
  "close_catch k s =
     (if k < length (closes s) \<and> \<not> c_caught (closes s ! k) then
        (let s' = s\<lparr>closes := (closes s)[k := (closes s ! k)\<lparr>c_caught := True\<rparr>]\<rparr>
         in if c_hookPromise (closes s ! k) = Some CatchOfHook then
              (case c_hook (closes s ! k) of
                 Pending \<Rightarrow> None
               | Fulfilled u \<Rightarrow> Some s'
               | Rejected e \<Rightarrow>
                   (if ctrls s ! c_ctrl (closes s ! k) = None
                       \<or> Some e \<noteq> ctrls s ! c_ctrl (closes s ! k)
                    then Some (s'\<lparr>reported := reported s @ [e]\<rparr>)
                    else Some s'))
            else (if c_ret (closes s ! k) \<noteq> Pending then Some s' else None))
      else None)"

text \<open>The \<open>finally\<close> callback of lines 124 to 130.\<close>

definition close_finally :: "nat \<Rightarrow> state \<Rightarrow> state option" where
  "close_finally k s =
     (if k < length (closes s) \<and> c_caught (closes s ! k) \<and> \<not> c_done (closes s ! k) then
        (let s1 = (if ctrls s ! c_ctrl (closes s ! k) = None
                   then s\<lparr>openPromise := None\<rparr> else s)
         in Some (s1\<lparr> closeController := None, closePromise := None,
                      closes := (closes s)[k := (closes s ! k)\<lparr>c_done := True\<rparr>] \<rparr>))
      else None)"

text \<open>The close operation calls \<open>acquireHook\<close> after it has returned (an asynchronous
  close operation, after its first \<open>await\<close>).\<close>

definition late_acquire :: "nat \<Rightarrow> state \<Rightarrow> state option" where
  "late_acquire k s =
     (if k < length (closes s) then
        (let (r, hp) = acquireHook k (c_ctrl (closes s ! k)) (c_hookPromise (closes s ! k))
         in Some (s\<lparr>closes := (closes s)[k := (closes s ! k)
                     \<lparr>c_hookPromise := hp, c_acquired := c_acquired (closes s ! k) @ [r]\<rparr>]\<rparr>))
      else None)"

section \<open>The transition system\<close>

datatype event =
    CallOpen callsig
  | AbortCaller nat jsval
  | OpenerSettles nat "closable pstate"
  | Resume nat
  | Cancel nat
  | CallClose nat jsval
  | ResumeClose nat
  | CloseSettles nat "unit pstate"
  | HookSettles nat "unit pstate"
  | CloseCatch nat
  | CloseFinally nat
  | LateAcquire nat

text \<open>One step; \<open>None\<close> when the event cannot happen in the state.\<close>

fun step :: "state \<Rightarrow> event \<Rightarrow> state option" where
  "step s (CallOpen sg) =
     (let (ph, s') = open_call sg s
      in Some (s'\<lparr>tasks := tasks s' @ [\<lparr> t_signal = sg, t_phase = ph \<rparr>]\<rparr>))"
| "step s (AbortCaller t r) = abort_caller t r s"
| "step s (OpenerSettles i res) = opener_settles i res s"
| "step s (Resume t) = resume t s"
| "step s (Cancel t) = cancel t s"
| "step s (CallClose h reason) = handle_close h reason s"
| "step s (ResumeClose c) = resume_close c s"
| "step s (CloseSettles k res) = close_settles k res s"
| "step s (HookSettles k res) = hook_settles k res s"
| "step s (CloseCatch k) = close_catch k s"
| "step s (CloseFinally k) = close_finally k s"
| "step s (LateAcquire k) = late_acquire k s"

fun run :: "state \<Rightarrow> event list \<Rightarrow> state option" where
  "run s [] = Some s"
| "run s (e # es) = (case step s e of None \<Rightarrow> None | Some s' \<Rightarrow> run s' es)"

section \<open>Observations and scenarios\<close>

text \<open>The \<open>open()\<close> calls that have incremented the counter and still await the shared
  open, and the handles whose \<open>closed\<close> flag is not set.\<close>

definition awaiting_open :: "otask \<Rightarrow> bool" where
  "awaiting_open t = (case t_phase t of WaitOpen p \<Rightarrow> True | _ \<Rightarrow> False)"

definition pending_opens :: "state \<Rightarrow> nat" where
  "pending_opens s = length (filter awaiting_open (tasks s))"

definition open_handles :: "state \<Rightarrow> nat" where
  "open_handles s = length (filter (\<lambda>h. \<not> h_closed h) (handles s))"


text \<open>The call is on the failure path of lines 190 to 203 with error \<open>e\<close>, or has rejected
  with \<open>e\<close>.\<close>

fun failing_with :: "jsval \<Rightarrow> phase \<Rightarrow> bool" where
  "failing_with e (Safeguard1 e' po) = (e' = e)"
| "failing_with e (Safeguard2 e' k) = (e' = e)"
| "failing_with e (Done (Threw e')) = (e' = e)"
| "failing_with e ph = False"

text \<open>The call has returned a handle that carries the value and the close operation of
  \<open>cv\<close>.\<close>

definition holds_value :: "state \<Rightarrow> nat \<Rightarrow> closable \<Rightarrow> bool" where
  "holds_value s t cv =
     (case t_phase (tasks s ! t) of
        Done (Returned h) \<Rightarrow>
          h < length (handles s) \<and> h_value (handles s ! h) = cvalue cv \<and>
          h_close (handles s ! h) = cclose cv
      | _ \<Rightarrow> False)"


text \<open>The two close fields are set and cleared together; every close invocation has a
  controller, has left its variable \<open>hookPromise\<close> assigned, and runs its \<open>finally\<close>
  callback after its \<open>catch\<close> reaction.\<close>

definition slots_ok :: "state \<Rightarrow> bool" where
  "slots_ok s =
     ((case closePromise s of
         None \<Rightarrow> closeController s = None
       | Some k \<Rightarrow> k < length (closes s) \<and> closeController s = Some (c_ctrl (closes s ! k))) \<and>
      list_all (\<lambda>c. c_ctrl c < length (ctrls s) \<and> c_hookPromise c \<noteq> None \<and>
                    (c_done c \<longrightarrow> c_caught c)) (closes s))"

text \<open>A resource whose close operation never takes the hook, and one whose close
  operation takes it once.\<close>

definition conn :: closable where
  "conn = \<lparr> cvalue = Str ''conn'', cclose = CloseFn 0 0 \<rparr>"

definition hooked :: closable where
  "hooked = \<lparr> cvalue = Str ''conn'', cclose = CloseFn 0 1 \<rparr>"

text \<open>One caller opens the resource and gets handle 0.\<close>

definition opened_once :: "event list" where
  "opened_once = [CallOpen NoSignal, OpenerSettles 0 (Fulfilled conn), Resume 0]"

text \<open>Two callers open concurrently; the opener settles; the first caller gets its handle,
  the second still waits.\<close>

definition two_callers :: "event list" where
  "two_callers = [CallOpen NoSignal, CallOpen Live, OpenerSettles 0 (Fulfilled conn), Resume 0]"

text \<open>The only handle is closed: the close operation has been invoked and is pending.\<close>

definition closing :: "event list" where
  "closing = opened_once @ [CallClose 0 Undefined]"

text \<open>The same with a close operation that takes the hook.\<close>

definition closing_hooked :: "event list" where
  "closing_hooked =
     [CallOpen NoSignal, OpenerSettles 0 (Fulfilled hooked), Resume 0, CallClose 0 Undefined]"

text \<open>While that close is pending a second caller calls \<open>open()\<close>. The close operation
  then settles, the first caller's \<open>close()\<close> returns, and the second caller gets handle
  1.\<close>

definition superseded :: "event list" where
  "superseded = closing @
     [CallOpen NoSignal, CloseSettles 0 (Fulfilled ()), CloseCatch 0, ResumeClose 0,
      CloseFinally 0, Resume 1, Resume 1]"

text \<open>The second caller closes its handle, too.\<close>

definition closed_twice :: "event list" where
  "closed_twice = superseded @ [CallClose 1 Undefined]"

text \<open>The only caller cancels its wait while the opener is pending.\<close>

definition cancelled_waiting :: "event list" where
  "cancelled_waiting = [CallOpen Live, AbortCaller 0 (Str ''cancelled''), Cancel 0]"

text \<open>The opener ignores the abort and fulfils; the safeguard of line 198 invokes the
  close operation.\<close>

definition cancelled_last :: "event list" where
  "cancelled_last = cancelled_waiting @ [OpenerSettles 0 (Fulfilled conn), Resume 0]"


text \<open>Two callers cancel one after the other while the opener is pending; the opener
  fulfils all the same, so both safeguards invoke the close operation (closes 0 and 1).
  Close 0 settles; a third caller opens (opener invocation 1); close 1 settles, not
  aborted, and clears the open field; a fourth caller opens (opener invocation 2) while
  invocation 1 is still pending.\<close>

definition stale_open :: "event list" where
  "stale_open =
     [CallOpen Live, AbortCaller 0 (Str ''a''), Cancel 0,
      CallOpen Live, AbortCaller 1 (Str ''b''), Cancel 1,
      OpenerSettles 0 (Fulfilled conn), Resume 0, Resume 1,
      CloseSettles 0 (Fulfilled ()), CloseCatch 0, Resume 0, CloseFinally 0,
      CallOpen NoSignal,
      CloseSettles 1 (Fulfilled ()), CloseCatch 1, Resume 1, CloseFinally 1,
      CallOpen NoSignal]"


text \<open>Both pending opener invocations of \<open>stale_open\<close> fulfil, with different
  resources, and both waiting callers get their handles.\<close>

definition res_a :: closable where
  "res_a = \<lparr> cvalue = Str ''a'', cclose = CloseFn 1 0 \<rparr>"

definition res_b :: closable where
  "res_b = \<lparr> cvalue = Str ''b'', cclose = CloseFn 2 0 \<rparr>"

definition split_flight :: "event list" where
  "split_flight = stale_open @
     [OpenerSettles 1 (Fulfilled res_a), Resume 2, OpenerSettles 2 (Fulfilled res_b), Resume 3]"

text \<open>Both callers close their handles.\<close>

definition split_flight_closed :: "event list" where
  "split_flight_closed = split_flight @ [CallClose 0 Undefined, CallClose 1 Undefined]"

section \<open>Properties\<close>

lemmas op_defs = resume_def cancel_def abort_caller_def opener_settles_def handle_close_def
  resume_close_def close_settles_def hook_settles_def close_catch_def close_finally_def
  late_acquire_def open_call_def enter_def start_open_def issue_def catch_path_def
  close_internal_def set_phase_def add_ctask_def

lemmas scenario_defs = init_def conn_def hooked_def abort_def acquireHook_def

lemma run_Cons_Some:
  assumes "run s (e # es) = Some s'"
  obtains s1 where "step s e = Some s1" and "run s1 es = Some s'"
  using assms by (auto split: option.splits)

lemma run_append:
  "run s (es @ fs) = (case run s es of None \<Rightarrow> None | Some s' \<Rightarrow> run s' fs)"
  by (induction es arbitrary: s) (auto split: option.splits)

subsection \<open>The counter\<close>

lemma filter_update_len:
  "i < length xs \<Longrightarrow>
   int (length (filter P (xs[i := y]))) =
     int (length (filter P xs)) - (if P (xs ! i) then 1 else 0) + (if P y then 1 else 0)"
proof (induction xs arbitrary: i)
  case Nil
  then show ?case by simp
next
  case (Cons x xs)
  show ?case
  proof (cases i)
    case 0
    then show ?thesis by simp
  next
    case (Suc j)
    with Cons.prems have "j < length xs" by simp
    from Cons.IH[OF this] Suc show ?thesis by (auto split: if_splits)
  qed
qed

lemma count_step:
  assumes "step s e = Some s'"
    and "count s = int (pending_opens s) + int (open_handles s)"
  shows "count s' = int (pending_opens s') + int (open_handles s')"
  using assms
  by (cases e)
     (auto simp: op_defs Let_def pending_opens_def open_handles_def awaiting_open_def
        filter_update_len
        split: if_splits option.splits phase.splits pstate.splits callsig.splits
          prod.splits cphase.splits)

lemma count_run:
  "run s es = Some s' \<Longrightarrow> count s = int (pending_opens s) + int (open_handles s)
   \<Longrightarrow> count s' = int (pending_opens s') + int (open_handles s')"
proof (induction es arbitrary: s)
  case Nil
  then show ?case by simp
next
  case (Cons e es)
  from Cons.prems(1) obtain s1 where 1: "step s e = Some s1" and 2: "run s1 es = Some s'"
    by (rule run_Cons_Some)
  from Cons.IH[OF 2 count_step[OF 1 Cons.prems(2)]] show ?case .
qed

text \<open>
  C3, as amended. After every sequence of events the counter is the number of \<open>open()\<close>
  calls that have incremented it and still await the shared open, plus the number of
  issued handles whose \<open>close()\<close> has not been called yet; so it is never negative. A
  handle counts as closed from its first \<open>close()\<close> call on, whether or not the close
  operation that call triggers succeeds.
\<close>

theorem counter_invariant:
  assumes "run init es = Some s"
  shows "count s = int (pending_opens s) + int (open_handles s) \<and> 0 \<le> count s"
proof -
  have "count init = int (pending_opens init) + int (open_handles init)"
    by (simp add: init_def pending_opens_def open_handles_def)
  from count_run[OF assms this] show ?thesis by simp
qed

theorem counter_invariant_witness:
  "run init two_callers \<noteq> None \<and>
   count (the (run init two_callers)) =
     int (pending_opens (the (run init two_callers))) +
     int (open_handles (the (run init two_callers))) \<and>
   0 \<le> count (the (run init two_callers)) \<and>
   pending_opens (the (run init two_callers)) = 1 \<and>
   open_handles (the (run init two_callers)) = 1"
proof -
  have "run init two_callers \<noteq> None"
    by (simp add: two_callers_def scenario_defs op_defs)
  then obtain s where s: "run init two_callers = Some s" by blast
  have "pending_opens (the (run init two_callers)) = 1"
    and "open_handles (the (run init two_callers)) = 1"
    by (simp_all add: two_callers_def scenario_defs op_defs pending_opens_def
          open_handles_def awaiting_open_def)
  with counter_invariant[OF s] s show ?thesis by simp
qed

text \<open>
  C3 as stated fails: after a single \<open>open()\<close> call whose opener has not settled, the
  counter is 1 and no handle has been issued.
\<close>

theorem counter_counts_pending_open:
  "map_option count (run init [CallOpen NoSignal]) = Some 1 \<and>
   map_option handles (run init [CallOpen NoSignal]) = Some [] \<and>
   map_option open_handles (run init [CallOpen NoSignal]) = Some 0"
  by (simp add: scenario_defs op_defs open_handles_def)

subsection \<open>Closing a handle\<close>

lemma closed_stays:
  assumes "step s e = Some s'" "h < length (handles s)" "h_closed (handles s ! h)"
  shows "h < length (handles s') \<and> h_closed (handles s' ! h)"
  using assms
  by (cases e)
     (auto simp: op_defs Let_def nth_append nth_list_update
        split: if_splits option.splits phase.splits pstate.splits callsig.splits
          prod.splits cphase.splits)

lemma closed_stays_run:
  "run s es = Some s' \<Longrightarrow> h < length (handles s) \<Longrightarrow> h_closed (handles s ! h)
   \<Longrightarrow> h < length (handles s') \<and> h_closed (handles s' ! h)"
proof (induction es arbitrary: s)
  case Nil
  then show ?case by simp
next
  case (Cons e es)
  from Cons.prems(1) obtain s1 where 1: "step s e = Some s1" and 2: "run s1 es = Some s'"
    by (rule run_Cons_Some)
  from closed_stays[OF 1 Cons.prems(2,3)] Cons.IH[OF 2] show ?case by blast
qed

text \<open>
  C5 as stated fails. After the handle has been closed, a second \<open>close()\<close> call raises
  nothing: it returns a promise (call 1), and that promise is rejected with
  \<open>Error('Already closed.')\<close>. The counter is not decremented again.
\<close>

theorem already_closed_is_a_rejection:
  "map_option fst
     (Option.bind (run init (closing @ [CloseSettles 0 (Fulfilled ())]))
        (handle_close_call 0 (Str ''again'')))
     = Some (Returns 1) \<and>
   map_option fst
     (Option.bind (run init (closing @ [CloseSettles 0 (Fulfilled ())]))
        (handle_close_call 0 (Str ''again'')))
     \<noteq> Some (Raises (Error ''Already closed.'')) \<and>
   map_option (map ct_phase \<circ> ctasks \<circ> snd)
     (Option.bind (run init (closing @ [CloseSettles 0 (Fulfilled ())]))
        (handle_close_call 0 (Str ''again'')))
     = Some [CWait 0, CDone (Some (Error ''Already closed.''))] \<and>
   map_option count (run init (closing @ [CloseSettles 0 (Fulfilled ())])) = Some 0 \<and>
   map_option (count \<circ> snd)
     (Option.bind (run init (closing @ [CloseSettles 0 (Fulfilled ())]))
        (handle_close_call 0 (Str ''again'')))
     = Some 0"
  by (simp add: closing_def opened_once_def handle_close_call_def scenario_defs op_defs)

text \<open>
  C5, as amended. The first \<open>close()\<close> call on a handle sets its \<open>closed\<close> flag and
  decrements the counter. Whatever happens afterwards, every later \<open>close()\<close> call on
  that handle fails with \<open>Error('Already closed.')\<close>: the call returns its promise, and
  that promise is rejected with this error already when the call returns, without a
  suspension. Nothing is raised synchronously. Such a call changes nothing else: the
  state after it is the state before it with the failed call added, so the counter is
  not decremented again.
\<close>

theorem handle_close_idempotent:
  assumes "h < length (handles s)" and "\<not> h_closed (handles s ! h)"
    and "step s (CallClose h r1) = Some s1"
    and "run s1 es = Some s2"
  shows "count s1 = count s - 1 \<and> h_closed (handles s1 ! h) \<and>
         step s2 (CallClose h r2) =
           Some (s2\<lparr>ctasks := ctasks s2 @
                  [\<lparr> ct_handle = h, ct_phase = CDone (Some (Error ''Already closed.'')) \<rparr>]\<rparr>) \<and>
         handle_close_call h r2 s2 =
           Some (Returns (length (ctasks s2)),
                 s2\<lparr>ctasks := ctasks s2 @
                  [\<lparr> ct_handle = h, ct_phase = CDone (Some (Error ''Already closed.'')) \<rparr>]\<rparr>)"
proof -
  from assms(1-3) have a: "count s1 = count s - 1" and b: "h < length (handles s1)"
    and c: "h_closed (handles s1 ! h)"
    by (auto simp: handle_close_def close_internal_def add_ctask_def Let_def
          split: if_splits prod.splits)
  from closed_stays_run[OF assms(4) b c]
  have d: "handle_close h r2 s2 =
           Some (s2\<lparr>ctasks := ctasks s2 @
                  [\<lparr> ct_handle = h, ct_phase = CDone (Some (Error ''Already closed.'')) \<rparr>]\<rparr>)"
    by (simp add: handle_close_def add_ctask_def)
  then have "handle_close_call h r2 s2 =
           Some (Returns (length (ctasks s2)),
                 s2\<lparr>ctasks := ctasks s2 @
                  [\<lparr> ct_handle = h, ct_phase = CDone (Some (Error ''Already closed.'')) \<rparr>]\<rparr>)"
    by (simp add: handle_close_call_def)
  with a c d show ?thesis by simp
qed

theorem handle_close_idempotent_witness:
  "run init opened_once \<noteq> None \<and>
   0 < length (handles (the (run init opened_once))) \<and>
   \<not> h_closed (handles (the (run init opened_once)) ! 0) \<and>
   run init (opened_once @ [CallClose 0 Undefined, CloseSettles 0 (Fulfilled ())]) \<noteq> None \<and>
   map_option (map ct_phase \<circ> ctasks)
     (run init (opened_once @ [CallClose 0 Undefined, CloseSettles 0 (Fulfilled ()),
        CallClose 0 (Str ''again'')]))
     = Some [CWait 0, CDone (Some (Error ''Already closed.''))] \<and>
   map_option count
     (run init (opened_once @ [CallClose 0 Undefined, CloseSettles 0 (Fulfilled ()),
        CallClose 0 (Str ''again'')])) = Some 0 \<and>
   map_option fst
     (handle_close_call 0 (Str ''again'')
        (the (run init (opened_once @ [CallClose 0 Undefined, CloseSettles 0 (Fulfilled ())]))))
     = Some (Returns 1)"
proof -
  have 0: "run init opened_once \<noteq> None"
    by (simp add: opened_once_def scenario_defs op_defs)
  then obtain s where s: "run init opened_once = Some s" by blast
  have 1: "0 < length (handles s)" and 2: "\<not> h_closed (handles s ! 0)"
    using s by (auto simp: opened_once_def scenario_defs op_defs)
  have "step s (CallClose 0 Undefined) \<noteq> None"
    using 1 by (auto simp: handle_close_def add_ctask_def Let_def split: prod.splits)
  then obtain s1 where s1: "step s (CallClose 0 Undefined) = Some s1" by blast
  have "run s1 [CloseSettles 0 (Fulfilled ())] \<noteq> None"
    using s s1 by (auto simp: opened_once_def scenario_defs op_defs)
  then obtain s2 where s2: "run s1 [CloseSettles 0 (Fulfilled ())] = Some s2" by blast
  note step2 = handle_close_idempotent[OF 1 2 s1 s2, of "Str ''again''"]
  have 3: "run init (opened_once @ [CallClose 0 Undefined, CloseSettles 0 (Fulfilled ())]) = Some s2"
    using s s1 s2 by (simp add: run_append)
  have 4: "run init (opened_once @ [CallClose 0 Undefined, CloseSettles 0 (Fulfilled ()),
        CallClose 0 (Str ''again'')]) = step s2 (CallClose 0 (Str ''again''))"
    using s s1 s2 by (simp add: run_append split: option.splits)
  have 5: "map ct_phase (ctasks s2) = [CWait 0]" and 6: "count s2 = 0"
    and 7: "length (ctasks s2) = 1"
    using s s1 s2 by (auto simp: opened_once_def scenario_defs op_defs)
  from step2 0 1 2 3 4 5 6 7 s show ?thesis by simp
qed

subsection \<open>Invariants of the fields\<close>

lemma abort_length [simp]: "length (abort c r cs) = length cs"
  by (simp add: abort_def)

lemma slots_init: "slots_ok init"
  by (simp add: slots_ok_def init_def)

lemma slots_step:
  assumes "step s e = Some s'" "slots_ok s"
  shows "slots_ok s'"
proof (cases e)
  case (CallOpen sg)
  with assms show ?thesis
    by (auto simp: open_call_def enter_def start_open_def Let_def nth_append nth_list_update slots_ok_def list_all_length
          split: callsig.splits option.splits prod.splits)
next
  case (AbortCaller t' r')
  with assms show ?thesis
    by (auto simp: abort_caller_def nth_append nth_list_update slots_ok_def list_all_length
          split: if_splits option.splits)
next
  case (OpenerSettles i' res)
  with assms show ?thesis
    by (auto simp: opener_settles_def Let_def nth_append nth_list_update slots_ok_def list_all_length
          split: if_splits pstate.splits option.splits)
next
  case (Resume t')
  with assms show ?thesis
    by (auto simp: resume_def Let_def enter_def start_open_def issue_def catch_path_def
          close_internal_def set_phase_def nth_append nth_list_update slots_ok_def list_all_length
          split: if_splits phase.splits pstate.splits option.splits prod.splits)
next
  case (Cancel t')
  with assms show ?thesis
    by (auto simp: cancel_def Let_def catch_path_def set_phase_def nth_append nth_list_update slots_ok_def list_all_length
          split: if_splits phase.splits callsig.splits option.splits)
next
  case (CallClose h' r')
  with assms show ?thesis
    by (auto simp: handle_close_def Let_def close_internal_def add_ctask_def nth_append nth_list_update slots_ok_def list_all_length
          split: if_splits prod.splits option.splits)
next
  case (ResumeClose c')
  with assms show ?thesis
    by (auto simp: resume_close_def nth_append nth_list_update slots_ok_def list_all_length
          split: if_splits cphase.splits pstate.splits option.splits)
next
  case (CloseSettles k' res)
  with assms show ?thesis
    by (auto simp: close_settles_def nth_append nth_list_update slots_ok_def list_all_length
          split: if_splits option.splits)
next
  case (HookSettles k' res)
  with assms show ?thesis
    by (auto simp: hook_settles_def nth_append nth_list_update slots_ok_def list_all_length
          split: if_splits option.splits)
next
  case (CloseCatch k')
  with assms show ?thesis
    by (auto simp: close_catch_def Let_def nth_append nth_list_update slots_ok_def list_all_length
          split: if_splits pstate.splits option.splits)
next
  case (CloseFinally k')
  with assms show ?thesis
    by (auto simp: close_finally_def Let_def nth_append nth_list_update slots_ok_def list_all_length
          split: if_splits option.splits)
next
  case (LateAcquire k')
  with assms show ?thesis
    by (auto simp: late_acquire_def Let_def acquireHook_def nth_append nth_list_update slots_ok_def list_all_length
          split: if_splits prod.splits option.splits)
qed

lemma slots_run: "run s es = Some s' \<Longrightarrow> slots_ok s \<Longrightarrow> slots_ok s'"
proof (induction es arbitrary: s)
  case Nil
  then show ?case by simp
next
  case (Cons e es)
  from Cons.prems(1) obtain s1 where 1: "step s e = Some s1" and 2: "run s1 es = Some s'"
    by (rule run_Cons_Some)
  from Cons.IH[OF 2 slots_step[OF 1 Cons.prems(2)]] show ?case .
qed





lemma settled_open_stays:
  assumes "step s e = Some s'" "i < length (opens s)" "o_state (opens s ! i) \<noteq> Pending"
  shows "i < length (opens s') \<and> opens s' ! i = opens s ! i"
proof (cases e)
  case (CallOpen sg)
  with assms show ?thesis
    by (auto simp: open_call_def enter_def start_open_def Let_def nth_append nth_list_update
          split: callsig.splits option.splits prod.splits)
next
  case (AbortCaller t' r')
  with assms show ?thesis
    by (auto simp: abort_caller_def nth_append nth_list_update
          split: if_splits)
next
  case (OpenerSettles i' res)
  with assms show ?thesis
    by (auto simp: opener_settles_def Let_def nth_append nth_list_update
          split: if_splits pstate.splits)
next
  case (Resume t')
  with assms show ?thesis
    by (auto simp: resume_def Let_def enter_def start_open_def issue_def catch_path_def
          close_internal_def set_phase_def nth_append nth_list_update
          split: if_splits phase.splits pstate.splits option.splits prod.splits)
next
  case (Cancel t')
  with assms show ?thesis
    by (auto simp: cancel_def Let_def catch_path_def set_phase_def nth_append nth_list_update
          split: if_splits phase.splits callsig.splits option.splits)
next
  case (CallClose h' r')
  with assms show ?thesis
    by (auto simp: handle_close_def Let_def close_internal_def add_ctask_def nth_append nth_list_update
          split: if_splits prod.splits)
next
  case (ResumeClose c')
  with assms show ?thesis
    by (auto simp: resume_close_def nth_append nth_list_update
          split: if_splits cphase.splits pstate.splits)
next
  case (CloseSettles k' res)
  with assms show ?thesis
    by (auto simp: close_settles_def nth_append nth_list_update
          split: if_splits)
next
  case (HookSettles k' res)
  with assms show ?thesis
    by (auto simp: hook_settles_def nth_append nth_list_update
          split: if_splits)
next
  case (CloseCatch k')
  with assms show ?thesis
    by (auto simp: close_catch_def Let_def nth_append nth_list_update
          split: if_splits pstate.splits)
next
  case (CloseFinally k')
  with assms show ?thesis
    by (auto simp: close_finally_def Let_def nth_append nth_list_update
          split: if_splits)
next
  case (LateAcquire k')
  with assms show ?thesis
    by (auto simp: late_acquire_def Let_def acquireHook_def nth_append nth_list_update
          split: if_splits prod.splits)
qed

lemma settled_open_stays_run:
  "run s es = Some s' \<Longrightarrow> i < length (opens s) \<Longrightarrow> o_state (opens s ! i) \<noteq> Pending
   \<Longrightarrow> i < length (opens s') \<and> opens s' ! i = opens s ! i"
proof (induction es arbitrary: s)
  case Nil
  then show ?case by simp
next
  case (Cons e es)
  from Cons.prems(1) obtain s1 where 1: "step s e = Some s1" and 2: "run s1 es = Some s'"
    by (rule run_Cons_Some)
  from settled_open_stays[OF 1 Cons.prems(2,3)]
  have a: "i < length (opens s1)" and b: "opens s1 ! i = opens s ! i" by simp_all
  with Cons.prems(3) have "o_state (opens s1 ! i) \<noteq> Pending" by simp
  from Cons.IH[OF 2 a this] b show ?case by simp
qed





subsection \<open>Single flight\<close>

lemma opener_only_on_empty_slot:
  assumes "step s e = Some s'" "length (opens s') \<noteq> length (opens s)"
  shows "openPromise s = None \<and> openPromise s' = Some (length (opens s)) \<and>
         opens s' = opens s @ [\<lparr> o_ctrl = length (ctrls s), o_state = Pending \<rparr>]"
proof (cases e)
  case (CallOpen sg)
  with assms show ?thesis
    by (auto simp: open_call_def enter_def start_open_def Let_def nth_append nth_list_update
          split: callsig.splits option.splits prod.splits)
next
  case (AbortCaller t' r')
  with assms show ?thesis
    by (auto simp: abort_caller_def nth_append nth_list_update
          split: if_splits)
next
  case (OpenerSettles i' res)
  with assms show ?thesis
    by (auto simp: opener_settles_def Let_def nth_append nth_list_update
          split: if_splits pstate.splits)
next
  case (Resume t')
  with assms show ?thesis
    by (auto simp: resume_def Let_def enter_def start_open_def issue_def catch_path_def
          close_internal_def set_phase_def nth_append nth_list_update
          split: if_splits phase.splits pstate.splits option.splits prod.splits)
next
  case (Cancel t')
  with assms show ?thesis
    by (auto simp: cancel_def Let_def catch_path_def set_phase_def nth_append nth_list_update
          split: if_splits phase.splits callsig.splits option.splits)
next
  case (CallClose h' r')
  with assms show ?thesis
    by (auto simp: handle_close_def Let_def close_internal_def add_ctask_def nth_append nth_list_update
          split: if_splits prod.splits)
next
  case (ResumeClose c')
  with assms show ?thesis
    by (auto simp: resume_close_def nth_append nth_list_update
          split: if_splits cphase.splits pstate.splits)
next
  case (CloseSettles k' res)
  with assms show ?thesis
    by (auto simp: close_settles_def nth_append nth_list_update
          split: if_splits)
next
  case (HookSettles k' res)
  with assms show ?thesis
    by (auto simp: hook_settles_def nth_append nth_list_update
          split: if_splits)
next
  case (CloseCatch k')
  with assms show ?thesis
    by (auto simp: close_catch_def Let_def nth_append nth_list_update
          split: if_splits pstate.splits)
next
  case (CloseFinally k')
  with assms show ?thesis
    by (auto simp: close_finally_def Let_def nth_append nth_list_update
          split: if_splits)
next
  case (LateAcquire k')
  with assms show ?thesis
    by (auto simp: late_acquire_def Let_def acquireHook_def nth_append nth_list_update
          split: if_splits prod.splits)
qed

lemma open_first:
  assumes "openPromise s = None" "closePromise s = None" "\<forall>r. sg \<noteq> Aborted r"
  shows "step s (CallOpen sg) =
           Some (s\<lparr> count := count s + 1,
                    ctrls := ctrls s @ [None],
                    openController := Some (length (ctrls s)),
                    openPromise := Some (length (opens s)),
                    opens := opens s @ [\<lparr> o_ctrl = length (ctrls s), o_state = Pending \<rparr>],
                    tasks := tasks s @
                      [\<lparr> t_signal = sg, t_phase = WaitOpen (length (opens s)) \<rparr>] \<rparr>)"
  using assms by (cases sg) (simp_all add: open_call_def enter_def start_open_def Let_def)

lemma open_join:
  assumes "openPromise s = Some p" "closePromise s = None" "\<forall>r. sg \<noteq> Aborted r"
  shows "step s (CallOpen sg) =
           Some (s\<lparr> count := count s + 1,
                    tasks := tasks s @ [\<lparr> t_signal = sg, t_phase = WaitOpen p \<rparr>] \<rparr>)"
  using assms by (cases sg) (simp_all add: open_call_def enter_def start_open_def Let_def)

lemma open_joins:
  assumes "openPromise s = Some p" "closePromise s = None"
    and "\<forall>g \<in> set sgs. \<forall>r. g \<noteq> Aborted r"
  shows "run s (map CallOpen sgs) =
           Some (s\<lparr> count := count s + int (length sgs),
                    tasks := tasks s @ map (\<lambda>g. \<lparr> t_signal = g, t_phase = WaitOpen p \<rparr>) sgs \<rparr>)"
  using assms
proof (induction sgs arbitrary: s)
  case Nil
  then show ?case by simp
next
  case (Cons g gs)
  let ?s1 = "s\<lparr> count := count s + 1,
                tasks := tasks s @ [\<lparr> t_signal = g, t_phase = WaitOpen p \<rparr>] \<rparr>"
  from Cons.prems have 1: "step s (CallOpen g) = Some ?s1"
    by (intro open_join) auto
  have "run ?s1 (map CallOpen gs) =
           Some (?s1\<lparr> count := count ?s1 + int (length gs),
                    tasks := tasks ?s1 @ map (\<lambda>g. \<lparr> t_signal = g, t_phase = WaitOpen p \<rparr>) gs \<rparr>)"
    using Cons.prems by (intro Cons.IH) auto
  with 1 show ?case by simp
qed

lemma resumes_issue:
  assumes "p < length (opens s)" "o_state (opens s ! p) = Fulfilled cv"
    and "distinct ts"
    and "\<forall>t \<in> set ts. t < length (tasks s) \<and> t_phase (tasks s ! t) = WaitOpen p"
  shows "\<exists>s2. run s (map Resume ts) = Some s2 \<and> opens s2 = opens s \<and>
           length (tasks s2) = length (tasks s) \<and>
           length (handles s) \<le> length (handles s2) \<and>
           (\<forall>h < length (handles s). handles s2 ! h = handles s ! h) \<and>
           (\<forall>t. t \<notin> set ts \<longrightarrow> tasks s2 ! t = tasks s ! t) \<and>
           (\<forall>t \<in> set ts. holds_value s2 t cv)"
  using assms
proof (induction ts arbitrary: s)
  case Nil
  then show ?case by simp
next
  case (Cons t ts)
  let ?s1 = "issue t cv s"
  from Cons.prems have t: "t < length (tasks s)" "t_phase (tasks s ! t) = WaitOpen p"
    and nt: "t \<notin> set ts" and d: "distinct ts" by auto
  from t Cons.prems(1,2) have 1: "step s (Resume t) = Some ?s1"
    by (simp add: resume_def)
  have o1: "opens ?s1 = opens s" and l1: "length (tasks ?s1) = length (tasks s)"
    and h1: "handles ?s1 = handles s @
               [\<lparr> h_value = cvalue cv, h_close = cclose cv, h_closed = False \<rparr>]"
    and t1: "tasks ?s1 =
               (tasks s)[t := (tasks s ! t)\<lparr>t_phase := Done (Returned (length (handles s)))\<rparr>]"
    by (simp_all add: issue_def set_phase_def)
  have pre: "\<forall>t' \<in> set ts. t' < length (tasks ?s1) \<and> t_phase (tasks ?s1 ! t') = WaitOpen p"
    using Cons.prems(4) nt by (auto simp: t1 nth_list_update)
  from Cons.IH[of ?s1, OF _ _ d pre] Cons.prems(1,2) o1
  obtain s2 where r: "run ?s1 (map Resume ts) = Some s2" and o2: "opens s2 = opens ?s1"
    and l2: "length (tasks s2) = length (tasks ?s1)"
    and hl: "length (handles ?s1) \<le> length (handles s2)"
    and hp: "\<forall>h < length (handles ?s1). handles s2 ! h = handles ?s1 ! h"
    and fr: "\<forall>t'. t' \<notin> set ts \<longrightarrow> tasks s2 ! t' = tasks ?s1 ! t'"
    and hv: "\<forall>t' \<in> set ts. holds_value s2 t' cv"
    by auto
  have "holds_value s2 t cv"
    using fr nt hp hl t by (auto simp: holds_value_def t1 h1 nth_append nth_list_update)
  moreover have "\<forall>h < length (handles s). handles s2 ! h = handles s ! h"
    using hp by (auto simp: h1 nth_append)
  moreover have "\<forall>t'. t' \<notin> set (t # ts) \<longrightarrow> tasks s2 ! t' = tasks s ! t'"
    using fr by (auto simp: t1 nth_list_update)
  moreover have "length (handles s) \<le> length (handles s2)"
    using hl by (simp add: h1)
  ultimately show ?case
    using 1 r o2 o1 l2 l1 hv by auto
qed

text \<open>
  What lines 146 to 166 do guarantee. Starting where both the open field and the close
  field are empty, any number of \<open>open()\<close> calls (none with an aborted signal) made one
  after the other invoke the opener exactly once: the first call invokes it, the others
  join it, and all of them await that one invocation. When it fulfils with \<open>cv\<close>,
  every one of these calls that is resumed, in whatever order, returns a handle that
  carries the value and the close operation of \<open>cv\<close>, and the opener has still been
  invoked once. In general, a step invokes the opener only when the open field is
  empty, and that step fills the field; and a call that awaited an invocation which
  fulfilled with \<open>cv\<close> returns, when it is resumed, a handle that carries the value
  and the close operation of \<open>cv\<close>.
\<close>

theorem single_flight:
  assumes empty: "openPromise s = None" "closePromise s = None"
    and sgs: "sgs \<noteq> []" "\<forall>g \<in> set sgs. \<forall>r. g \<noteq> Aborted r"
    and ts: "distinct ts" "set ts \<subseteq> {length (tasks s) ..< length (tasks s) + length sgs}"
  shows "(\<exists>s1 s2. run s (map CallOpen sgs) = Some s1 \<and>
           opens s1 = opens s @ [\<lparr> o_ctrl = length (ctrls s), o_state = Pending \<rparr>] \<and>
           count s1 = count s + int (length sgs) \<and>
           tasks s1 = tasks s @
             map (\<lambda>g. \<lparr> t_signal = g, t_phase = WaitOpen (length (opens s)) \<rparr>) sgs \<and>
           run s1 (OpenerSettles (length (opens s)) (Fulfilled cv) # map Resume ts) = Some s2 \<and>
           length (opens s2) = length (opens s) + 1 \<and>
           (\<forall>t \<in> set ts. holds_value s2 t cv)) \<and>
         (\<forall>x e y. step x e = Some y \<and> length (opens y) \<noteq> length (opens x) \<longrightarrow>
           openPromise x = None \<and> openPromise y = Some (length (opens x)) \<and>
           length (opens y) = length (opens x) + 1) \<and>
         (\<forall>x t p y. t < length (tasks x) \<and> t_phase (tasks x ! t) = WaitOpen p \<and>
           p < length (opens x) \<and> o_state (opens x ! p) = Fulfilled cv \<and>
           step x (Resume t) = Some y \<longrightarrow> holds_value y t cv)"
proof -
  from sgs(1) obtain g gs where sg: "sgs = g # gs" by (cases sgs) auto
  let ?p = "length (opens s)"
  let ?s0 = "s\<lparr> count := count s + 1,
                    ctrls := ctrls s @ [None],
                    openController := Some (length (ctrls s)),
                    openPromise := Some ?p,
                    opens := opens s @ [\<lparr> o_ctrl = length (ctrls s), o_state = Pending \<rparr>],
                    tasks := tasks s @ [\<lparr> t_signal = g, t_phase = WaitOpen ?p \<rparr>] \<rparr>"
  let ?s1 = "?s0\<lparr> count := count ?s0 + int (length gs),
                    tasks := tasks ?s0 @ map (\<lambda>g. \<lparr> t_signal = g, t_phase = WaitOpen ?p \<rparr>) gs \<rparr>"
  from empty sgs(2) sg have a: "step s (CallOpen g) = Some ?s0"
    by (intro open_first) auto
  have b: "run ?s0 (map CallOpen gs) = Some ?s1"
    using empty sgs(2) sg by (intro open_joins) auto
  from a b sg have r1: "run s (map CallOpen sgs) = Some ?s1" by simp
  have A: "opens ?s1 = opens s @ [\<lparr> o_ctrl = length (ctrls s), o_state = Pending \<rparr>]"
    "count ?s1 = count s + int (length sgs)"
    "tasks ?s1 = tasks s @ map (\<lambda>g. \<lparr> t_signal = g, t_phase = WaitOpen ?p \<rparr>) sgs"
    by (simp_all add: sg)
  obtain s1' where st: "step ?s1 (OpenerSettles ?p (Fulfilled cv)) = Some s1'"
    and o1: "length (opens s1') = length (opens s) + 1"
    and f1: "o_state (opens s1' ! ?p) = Fulfilled cv" and t1: "tasks s1' = tasks ?s1"
    by (simp add: opener_settles_def Let_def)
  have pre: "\<forall>t \<in> set ts. t < length (tasks s1') \<and> t_phase (tasks s1' ! t) = WaitOpen ?p"
  proof
    fix t assume "t \<in> set ts"
    with ts(2) have lo: "length (tasks s) \<le> t" and hi: "t < length (tasks s) + length sgs"
      by auto
    then have "t - length (tasks s) < length sgs" by simp
    with lo hi show "t < length (tasks s1') \<and> t_phase (tasks s1' ! t) = WaitOpen ?p"
      unfolding t1 A(3) by (simp add: nth_append)
  qed
  from resumes_issue[of ?p s1' cv ts, OF _ f1 ts(1) pre] o1
  obtain s2 where r2: "run s1' (map Resume ts) = Some s2" and o2: "opens s2 = opens s1'"
    and hv: "\<forall>t \<in> set ts. holds_value s2 t cv"
    by auto
  from st r2 have "run ?s1 (OpenerSettles ?p (Fulfilled cv) # map Resume ts) = Some s2"
    by simp
  with r1 A o1 o2 hv
  have first: "\<exists>s1 s2. run s (map CallOpen sgs) = Some s1 \<and>
           opens s1 = opens s @ [\<lparr> o_ctrl = length (ctrls s), o_state = Pending \<rparr>] \<and>
           count s1 = count s + int (length sgs) \<and>
           tasks s1 = tasks s @
             map (\<lambda>g. \<lparr> t_signal = g, t_phase = WaitOpen (length (opens s)) \<rparr>) sgs \<and>
           run s1 (OpenerSettles (length (opens s)) (Fulfilled cv) # map Resume ts) = Some s2 \<and>
           length (opens s2) = length (opens s) + 1 \<and>
           (\<forall>t \<in> set ts. holds_value s2 t cv)"
    by auto
  have second: "openPromise x = None \<and> openPromise y = Some (length (opens x)) \<and>
           length (opens y) = length (opens x) + 1"
    if "step x e = Some y" "length (opens y) \<noteq> length (opens x)" for x e y
    using opener_only_on_empty_slot[OF that] by simp
  have third: "holds_value y t cv"
    if "t < length (tasks x)" "t_phase (tasks x ! t) = WaitOpen p" "p < length (opens x)"
       "o_state (opens x ! p) = Fulfilled cv" "step x (Resume t) = Some y" for x t p y
    using that by (auto simp: resume_def issue_def set_phase_def holds_value_def)
  from first second third show ?thesis by blast
qed

theorem single_flight_witness:
  "openPromise init = None \<and> closePromise init = None \<and> distinct [2, 0, 1 :: nat] \<and>
   map_option (length \<circ> opens)
     (run init (map CallOpen [NoSignal, Live, NoSignal] @
        OpenerSettles 0 (Fulfilled conn) # map Resume [2, 0, 1])) = Some 1 \<and>
   map_option (map t_phase \<circ> tasks)
     (run init (map CallOpen [NoSignal, Live, NoSignal] @
        OpenerSettles 0 (Fulfilled conn) # map Resume [2, 0, 1]))
     = Some [Done (Returned 1), Done (Returned 2), Done (Returned 0)] \<and>
   map_option (map h_value \<circ> handles)
     (run init (map CallOpen [NoSignal, Live, NoSignal] @
        OpenerSettles 0 (Fulfilled conn) # map Resume [2, 0, 1]))
     = Some [Str ''conn'', Str ''conn'', Str ''conn'']"
proof -
  have 1: "openPromise init = None" and 2: "closePromise init = None"
    by (simp_all add: init_def)
  have 3: "[NoSignal, Live, NoSignal] \<noteq> []"
    and 4: "\<forall>g \<in> set [NoSignal, Live, NoSignal]. \<forall>r. g \<noteq> Aborted r" by simp_all
  have 5: "distinct [2, 0, 1 :: nat]"
    and 6: "set [2, 0, 1] \<subseteq> {length (tasks init) ..<
              length (tasks init) + length [NoSignal, Live, NoSignal]}"
    by (auto simp: init_def)
  note inst = single_flight[OF 1 2 3 4 5 6, of conn]
  from inst 1 2 5 show ?thesis
    by (simp add: scenario_defs op_defs)
qed

text \<open>
  C1. The code breaks the claim in \<open>stale_open\<close>. Two callers cancel in turn while the
  opener is pending and the opener fulfils all the same, so the safeguard of line 198
  invokes the close operation twice. The \<open>finally\<close> callback of the first close clears
  the close field, so the third caller's \<open>open()\<close> is not held back and invokes the
  opener (invocation 1). The \<open>finally\<close> callback of the second close, not aborted,
  then clears the open field while invocation 1 is pending (lines 125 to 127 have no
  test like that of lines 152 and 159), so the fourth caller's \<open>open()\<close> invokes the
  opener again (invocation 2). Now two \<open>open()\<close> calls are pending at once, the
  counter is 2, and they wait for different invocations, neither of which has
  settled. When the invocations fulfil with the resources \<open>a\<close> and \<open>b\<close>, the two
  handles carry different values; when both handles are closed only the close
  operation of \<open>b\<close> is invoked, and \<open>a\<close> is never closed.
\<close>

theorem stale_close_splits_single_flight:
  "map_option count (run init stale_open) = Some 2 \<and>
   map_option (map t_phase \<circ> tasks) (run init stale_open)
     = Some [Done (Threw (Str ''a'')), Done (Threw (Str ''b'')), WaitOpen 1, WaitOpen 2] \<and>
   map_option (map o_state \<circ> opens) (run init stale_open)
     = Some [Fulfilled conn, Pending, Pending] \<and>
   map_option (length \<circ> opens) (run init split_flight) = Some 3 \<and>
   map_option (map t_phase \<circ> tasks) (run init split_flight)
     = Some [Done (Threw (Str ''a'')), Done (Threw (Str ''b'')),
             Done (Returned 0), Done (Returned 1)] \<and>
   map_option (map h_value \<circ> handles) (run init split_flight)
     = Some [Str ''a'', Str ''b''] \<and>
   map_option count (run init split_flight_closed) = Some 0 \<and>
   map_option (map c_fn \<circ> closes) (run init split_flight_closed) = Some [0, 0, 2]"
  by (simp add: split_flight_closed_def split_flight_def stale_open_def res_a_def res_b_def
        scenario_defs op_defs)

subsection \<open>Invoking the close operation\<close>

text \<open>
  C2 as stated fails. In \<open>closed_twice\<close> the opener is invoked once and the close
  operation of its result twice: the close triggered by the first handle is superseded
  by a new \<open>open()\<close>, which keeps the open field, and the handle of that \<open>open()\<close>
  triggers the next close. In \<open>cancelled_last\<close> the close operation is invoked although
  no handle was ever issued or closed.
\<close>

theorem close_invoked_twice:
  "map_option (length \<circ> opens) (run init closed_twice) = Some 1 \<and>
   map_option (map c_fn \<circ> closes) (run init closed_twice) = Some [0, 0] \<and>
   map_option (map h_value \<circ> handles) (run init closed_twice)
     = Some [Str ''conn'', Str ''conn''] \<and>
   map_option (length \<circ> closes) (run init cancelled_last) = Some 1 \<and>
   map_option handles (run init cancelled_last) = Some [] \<and>
   map_option ctasks (run init cancelled_last) = Some []"
  by (simp add: closed_twice_def superseded_def closing_def opened_once_def cancelled_last_def
        cancelled_waiting_def scenario_defs op_defs)

text \<open>
  C2, as amended. A handle's first \<open>close()\<close> that takes the counter from 1 to 0 invokes
  the close operation of that handle exactly once, with the reason it was given. A
  \<open>close()\<close> on a closed handle, or one that leaves the counter positive, invokes
  nothing. Whenever a step invokes the close operation it invokes it once, and the step
  is either such a \<open>close()\<close> or the continuation of a failed \<open>open()\<close> at line 198.
\<close>

theorem close_on_zero_transition:
  assumes "step s e = Some s'"
  shows "(\<forall>h r. e = CallClose h r \<and> \<not> h_closed (handles s ! h) \<and> count s = 1 \<longrightarrow>
            count s' = 0 \<and>
            (\<exists>c. closes s' = closes s @ [c] \<and> c_fn c = fn_id (h_close (handles s ! h)) \<and>
                 c_reason c = r)) \<and>
         (\<forall>h r. e = CallClose h r \<and> (h_closed (handles s ! h) \<or> count s \<noteq> 1) \<longrightarrow>
            closes s' = closes s) \<and>
         (length (closes s') \<noteq> length (closes s) \<longrightarrow>
            length (closes s') = length (closes s) + 1 \<and>
            ((\<exists>h r. e = CallClose h r \<and> \<not> h_closed (handles s ! h) \<and> count s = 1) \<or>
             (\<exists>t err p cv. e = Resume t \<and> t_phase (tasks s ! t) = Safeguard1 err (Some p) \<and>
                 o_state (opens s ! p) = Fulfilled cv)))"
proof (cases e)
  case (CallOpen sg)
  with assms show ?thesis
    by (auto simp: open_call_def enter_def start_open_def Let_def nth_append nth_list_update
          split: callsig.splits option.splits prod.splits)
next
  case (AbortCaller t' r')
  with assms show ?thesis
    by (auto simp: abort_caller_def nth_append nth_list_update
          split: if_splits)
next
  case (OpenerSettles i' res)
  with assms show ?thesis
    by (auto simp: opener_settles_def Let_def nth_append nth_list_update
          split: if_splits pstate.splits)
next
  case (Resume t')
  with assms show ?thesis
    by (auto simp: resume_def Let_def enter_def start_open_def issue_def catch_path_def
          close_internal_def set_phase_def nth_append nth_list_update
          split: if_splits phase.splits pstate.splits option.splits prod.splits)
next
  case (Cancel t')
  with assms show ?thesis
    by (auto simp: cancel_def Let_def catch_path_def set_phase_def nth_append nth_list_update
          split: if_splits phase.splits callsig.splits option.splits)
next
  case (CallClose h' r')
  with assms show ?thesis
    by (auto simp: handle_close_def Let_def close_internal_def add_ctask_def nth_append nth_list_update
          split: if_splits prod.splits)
next
  case (ResumeClose c')
  with assms show ?thesis
    by (auto simp: resume_close_def nth_append nth_list_update
          split: if_splits cphase.splits pstate.splits)
next
  case (CloseSettles k' res)
  with assms show ?thesis
    by (auto simp: close_settles_def nth_append nth_list_update
          split: if_splits)
next
  case (HookSettles k' res)
  with assms show ?thesis
    by (auto simp: hook_settles_def nth_append nth_list_update
          split: if_splits)
next
  case (CloseCatch k')
  with assms show ?thesis
    by (auto simp: close_catch_def Let_def nth_append nth_list_update
          split: if_splits pstate.splits)
next
  case (CloseFinally k')
  with assms show ?thesis
    by (auto simp: close_finally_def Let_def nth_append nth_list_update
          split: if_splits)
next
  case (LateAcquire k')
  with assms show ?thesis
    by (auto simp: late_acquire_def Let_def acquireHook_def nth_append nth_list_update
          split: if_splits prod.splits)
qed

theorem close_on_zero_transition_witness:
  "run init opened_once \<noteq> None \<and>
   step (the (run init opened_once)) (CallClose 0 (Str ''bye'')) \<noteq> None \<and>
   \<not> h_closed (handles (the (run init opened_once)) ! 0) \<and>
   count (the (run init opened_once)) = 1 \<and>
   map_option count (run init (opened_once @ [CallClose 0 (Str ''bye'')])) = Some 0 \<and>
   map_option (map c_fn \<circ> closes) (run init (opened_once @ [CallClose 0 (Str ''bye'')]))
     = Some [0] \<and>
   map_option (map c_reason \<circ> closes) (run init (opened_once @ [CallClose 0 (Str ''bye'')]))
     = Some [Str ''bye'']"
proof -
  have 0: "run init opened_once \<noteq> None"
    by (simp add: opened_once_def scenario_defs op_defs)
  then obtain s where s: "run init opened_once = Some s" by blast
  have "step s (CallClose 0 (Str ''bye'')) \<noteq> None"
    using s by (auto simp: opened_once_def scenario_defs op_defs)
  then obtain s' where s': "step s (CallClose 0 (Str ''bye'')) = Some s'" by blast
  have 1: "\<not> h_closed (handles s ! 0)" and 2: "count s = 1"
    using s by (auto simp: opened_once_def scenario_defs op_defs)
  have 3: "run init (opened_once @ [CallClose 0 (Str ''bye'')]) = Some s'"
    using s s' by (simp add: run_append)
  from close_on_zero_transition[OF s'] 1 2
  have "count s' = 0 \<and>
        (\<exists>c. closes s' = closes s @ [c] \<and> c_fn c = fn_id (h_close (handles s ! 0)) \<and>
             c_reason c = Str ''bye'')"
    by blast
  moreover have "closes s = []" and "fn_id (h_close (handles s ! 0)) = 0"
    using s by (auto simp: opened_once_def scenario_defs op_defs)
  ultimately have "count s' = 0 \<and> map c_fn (closes s') = [0] \<and>
      map c_reason (closes s') = [Str ''bye'']"
    by auto
  with 0 s s' 1 2 3 show ?thesis by simp
qed

subsection \<open>Supersession\<close>




subsection \<open>The failure path of \<open>open()\<close>\<close>




subsection \<open>Failure of the opener\<close>

text \<open>
  C7 as stated fails. In \<open>stale_open\<close> opener invocation 1 is pending while the open
  field already holds invocation 2, because a close that was not aborted cleared the
  field in between. When invocation 1 rejects, the guard of line 159 leaves the field
  alone, and the next \<open>open()\<close> joins invocation 2 instead of invoking the opener.
\<close>

theorem stale_rejection_keeps_slot:
  "map_option (map o_state \<circ> opens) (run init stale_open)
     = Some [Fulfilled conn, Pending, Pending] \<and>
   map_option openPromise (run init stale_open) = Some (Some 2) \<and>
   map_option (map o_state \<circ> opens)
       (run init (stale_open @ [OpenerSettles 1 (Rejected (Str ''boom''))]))
     = Some [Fulfilled conn, Rejected (Str ''boom''), Pending] \<and>
   map_option openPromise
       (run init (stale_open @ [OpenerSettles 1 (Rejected (Str ''boom''))])) = Some (Some 2) \<and>
   map_option (length \<circ> opens)
       (run init (stale_open @ [OpenerSettles 1 (Rejected (Str ''boom'')), CallOpen NoSignal]))
     = Some 3"
  by (simp add: stale_open_def scenario_defs op_defs)

text \<open>
  C7, as amended. Let opener invocation \<open>i\<close> be pending and reject with \<open>e\<close>. If it
  owns the open-controller field (the test of line 159), both open fields are cleared,
  so an \<open>open()\<close> call made when no close is in flight invokes the opener again. If it
  does not own the field, both open fields are left as they are. In both cases, from
  then on every call that still awaits invocation \<open>i\<close> takes, when it is resumed, the
  failure path with \<open>e\<close>, on which it can only reject with \<open>e\<close>.
\<close>

theorem open_failure_clears_slot:
  assumes i: "i < length (opens s)" and pend: "o_state (opens s ! i) = Pending"
    and rej: "step s (OpenerSettles i (Rejected e)) = Some s1"
    and later: "run s1 es = Some s2"
  shows "o_state (opens s1 ! i) = Rejected e \<and> tasks s1 = tasks s \<and> count s1 = count s \<and>
         (openController s = Some (o_ctrl (opens s ! i)) \<longrightarrow>
            openPromise s1 = None \<and> openController s1 = None \<and>
            (\<forall>sg. (\<forall>r. sg \<noteq> Aborted r) \<and> closePromise s1 = None \<longrightarrow>
              step s1 (CallOpen sg) =
                Some (s1\<lparr> count := count s1 + 1,
                          ctrls := ctrls s1 @ [None],
                          openController := Some (length (ctrls s1)),
                          openPromise := Some (length (opens s1)),
                          opens := opens s1 @ [\<lparr> o_ctrl = length (ctrls s1), o_state = Pending \<rparr>],
                          tasks := tasks s1 @
                            [\<lparr> t_signal = sg, t_phase = WaitOpen (length (opens s1)) \<rparr>] \<rparr>))) \<and>
         (openController s \<noteq> Some (o_ctrl (opens s ! i)) \<longrightarrow>
            openPromise s1 = openPromise s \<and> openController s1 = openController s) \<and>
         (\<forall>t. t < length (tasks s2) \<and> t_phase (tasks s2 ! t) = WaitOpen i \<longrightarrow>
              step s2 (Resume t) = Some (catch_path t e s2) \<and>
              failing_with e (t_phase (tasks (catch_path t e s2) ! t)))"
proof -
  from rej i pend
  have A: "o_state (opens s1 ! i) = Rejected e" "tasks s1 = tasks s" "count s1 = count s"
    and i1: "i < length (opens s1)"
    by (auto simp: opener_settles_def Let_def)
  have O: "openPromise s1 = None \<and> openController s1 = None"
    if "openController s = Some (o_ctrl (opens s ! i))"
    using that rej i pend by (auto simp: opener_settles_def Let_def)
  have N: "openPromise s1 = openPromise s \<and> openController s1 = openController s"
    if "openController s \<noteq> Some (o_ctrl (opens s ! i))"
    using that rej i pend by (auto simp: opener_settles_def Let_def)
  from settled_open_stays_run[OF later i1] A(1)
  have i2: "i < length (opens s2)" and r2: "o_state (opens s2 ! i) = Rejected e" by simp_all
  have B: "step s2 (Resume t) = Some (catch_path t e s2) \<and>
           failing_with e (t_phase (tasks (catch_path t e s2) ! t))"
    if "t < length (tasks s2)" "t_phase (tasks s2 ! t) = WaitOpen i" for t
    using that i2 r2
    by (auto simp: resume_def catch_path_def set_phase_def Let_def split: option.splits)
  have C: "step s1 (CallOpen sg) =
                Some (s1\<lparr> count := count s1 + 1,
                          ctrls := ctrls s1 @ [None],
                          openController := Some (length (ctrls s1)),
                          openPromise := Some (length (opens s1)),
                          opens := opens s1 @ [\<lparr> o_ctrl = length (ctrls s1), o_state = Pending \<rparr>],
                          tasks := tasks s1 @
                            [\<lparr> t_signal = sg, t_phase = WaitOpen (length (opens s1)) \<rparr>] \<rparr>)"
    if "openController s = Some (o_ctrl (opens s ! i))"
       "\<forall>r. sg \<noteq> Aborted r" "closePromise s1 = None" for sg
    using that O by (intro open_first) auto
  from A O N B C show ?thesis by blast
qed

theorem open_failure_clears_slot_witness:
  "run init [CallOpen NoSignal] \<noteq> None \<and>
   map_option (map o_state \<circ> opens) (run init [CallOpen NoSignal]) = Some [Pending] \<and>
   map_option openController (run init [CallOpen NoSignal]) = Some (Some 0) \<and>
   map_option (map o_ctrl \<circ> opens) (run init [CallOpen NoSignal]) = Some [0] \<and>
   map_option openPromise
     (run init [CallOpen NoSignal, OpenerSettles 0 (Rejected (Str ''boom''))]) = Some None \<and>
   map_option (map t_phase \<circ> tasks)
     (run init [CallOpen NoSignal, OpenerSettles 0 (Rejected (Str ''boom'')), Resume 0, Resume 0])
     = Some [Done (Threw (Str ''boom''))] \<and>
   map_option (length \<circ> opens)
     (run init [CallOpen NoSignal, OpenerSettles 0 (Rejected (Str ''boom'')), CallOpen NoSignal])
     = Some 2"
proof -
  let ?e = "Str ''boom''"
  have 0: "run init [CallOpen NoSignal] \<noteq> None"
    by (simp add: scenario_defs op_defs)
  then obtain s where s: "run init [CallOpen NoSignal] = Some s" by blast
  have 1: "0 < length (opens s)" and 2: "o_state (opens s ! 0) = Pending"
    and 3: "openController s = Some (o_ctrl (opens s ! 0))"
    using s by (auto simp: scenario_defs op_defs)
  have "step s (OpenerSettles 0 (Rejected ?e)) \<noteq> None"
    using 1 2 by (simp add: opener_settles_def Let_def)
  then obtain s1 where s1: "step s (OpenerSettles 0 (Rejected ?e)) = Some s1" by blast
  have s2: "run s1 [] = Some s1" by simp
  note inst = open_failure_clears_slot[OF 1 2 s1 s2]
  with 3 have 4: "openPromise s1 = None" by blast
  have 5: "run init [CallOpen NoSignal, OpenerSettles 0 (Rejected ?e)] = Some s1"
    using s s1 by (auto split: option.splits)
  have 6: "map_option (map t_phase \<circ> tasks)
     (run init [CallOpen NoSignal, OpenerSettles 0 (Rejected ?e), Resume 0, Resume 0])
     = Some [Done (Threw ?e)]"
    and 7: "map_option (length \<circ> opens)
     (run init [CallOpen NoSignal, OpenerSettles 0 (Rejected ?e), CallOpen NoSignal]) = Some 2"
    by (simp_all add: scenario_defs op_defs)
  have 8: "map o_state (opens s) = [Pending]" "openController s = Some 0"
    "map o_ctrl (opens s) = [0]"
    using s by (auto simp: scenario_defs op_defs)
  from 0 s 4 5 6 7 8 show ?thesis by simp
qed

subsection \<open>The hook\<close>

lemma acquire_calls_locked:
  "acquire_calls k c n (Some x) = (replicate n (Inl (Error ''Close hook locked.'')), Some x)"
  by (induction n) (simp_all add: acquireHook_def)

lemma acquire_calls_fresh:
  "acquire_calls k c n None =
     (if n = 0 then ([], None)
      else (Inr \<lparr>hk_close = k, hk_signal = c\<rparr> #
              replicate (n - 1) (Inl (Error ''Close hook locked.'')), Some HookRaw))"
  by (cases n) (simp_all add: acquireHook_def acquire_calls_locked)

text \<open>
  C8 as stated fails. In \<open>closing\<close> the close operation returns without having called
  \<open>acquireHook\<close>; when it calls it afterwards (an \<open>async\<close> close operation after its
  first \<open>await\<close>), this first call of the invocation throws
  \<open>Error('Close hook locked.')\<close>, because line 115 has assigned \<open>hookPromise\<close>.
\<close>

theorem late_first_acquire_fails:
  "map_option (map c_acquired \<circ> closes) (run init closing) = Some [[]] \<and>
   map_option (map c_acquired \<circ> closes) (run init (closing @ [LateAcquire 0]))
     = Some [[Inl (Error ''Close hook locked.'')]]"
  by (simp add: closing_def opened_once_def scenario_defs op_defs)

text \<open>
  C8, as amended. \<open>acquireHook\<close> returns a hook when the variable \<open>hookPromise\<close> is
  unassigned, and assigns it; otherwise it throws \<open>Error('Close hook locked.')\<close> to its
  caller and changes nothing. So, of the calls that the close operation makes before it
  returns, the first returns a hook and every further one throws. When \<open>#close\<close>
  returns, the variable is assigned whether or not a hook was taken, so in every
  reachable state a call made after the close operation has returned throws, even if it
  is the first call of that invocation.
\<close>

theorem hook_acquired_once:
  assumes "run init es = Some s" and "k < length (closes s)"
  shows "acquireHook k c None = (Inr \<lparr>hk_close = k, hk_signal = c\<rparr>, Some HookRaw) \<and>
         acquireHook k c (Some hp) = (Inl (Error ''Close hook locked.''), Some hp) \<and>
         c_acquired (last (closes (snd (close_internal f r s)))) =
           (if sync_acquires f = 0 then []
            else Inr \<lparr>hk_close = length (closes s), hk_signal = length (ctrls s)\<rparr> #
                   replicate (sync_acquires f - 1) (Inl (Error ''Close hook locked.''))) \<and>
         c_hookPromise (last (closes (snd (close_internal f r s)))) =
           Some (if sync_acquires f = 0 then CatchOfClose else CatchOfHook) \<and>
         step s (LateAcquire k) =
           Some (s\<lparr>closes := (closes s)[k := (closes s ! k)
                   \<lparr>c_acquired := c_acquired (closes s ! k) @
                      [Inl (Error ''Close hook locked.'')]\<rparr>]\<rparr>)"
proof -
  from slots_run[OF assms(1) slots_init] assms(2)
  have "c_hookPromise (closes s ! k) \<noteq> None"
    by (auto simp: slots_ok_def list_all_length)
  then obtain hp' where hp: "c_hookPromise (closes s ! k) = Some hp'" by blast
  have 1: "(closes s ! k)\<lparr>c_hookPromise := Some hp', c_acquired := x\<rparr> =
           (closes s ! k)\<lparr>c_acquired := x\<rparr>" for x
    using hp by (cases "closes s ! k") simp
  have L: "step s (LateAcquire k) =
           Some (s\<lparr>closes := (closes s)[k := (closes s ! k)
                   \<lparr>c_acquired := c_acquired (closes s ! k) @
                      [Inl (Error ''Close hook locked.'')]\<rparr>]\<rparr>)"
    using assms(2) hp by (simp add: late_acquire_def acquireHook_def 1)
  have A: "acquireHook k c None = (Inr \<lparr>hk_close = k, hk_signal = c\<rparr>, Some HookRaw)"
    "acquireHook k c (Some hp) = (Inl (Error ''Close hook locked.''), Some hp)"
    by (simp_all add: acquireHook_def)
  have B: "c_acquired (last (closes (snd (close_internal f r s)))) =
           (if sync_acquires f = 0 then []
            else Inr \<lparr>hk_close = length (closes s), hk_signal = length (ctrls s)\<rparr> #
                   replicate (sync_acquires f - 1) (Inl (Error ''Close hook locked.'')))"
    "c_hookPromise (last (closes (snd (close_internal f r s)))) =
           Some (if sync_acquires f = 0 then CatchOfClose else CatchOfHook)"
    by (simp_all add: close_internal_def Let_def acquire_calls_fresh)
  from A B L show ?thesis by simp
qed

theorem hook_acquired_once_witness:
  "run init closing_hooked \<noteq> None \<and>
   0 < length (closes (the (run init closing_hooked))) \<and>
   map_option (map c_acquired \<circ> closes) (run init closing_hooked)
     = Some [[Inr \<lparr>hk_close = 0, hk_signal = 1\<rparr>]] \<and>
   map_option (map c_acquired \<circ> closes) (run init (closing_hooked @ [LateAcquire 0]))
     = Some [[Inr \<lparr>hk_close = 0, hk_signal = 1\<rparr>, Inl (Error ''Close hook locked.'')]] \<and>
   c_acquired (last (closes (snd (close_internal (CloseFn 7 3) Undefined
       (the (run init closing_hooked))))))
     = [Inr \<lparr>hk_close = 1, hk_signal = 2\<rparr>, Inl (Error ''Close hook locked.''),
        Inl (Error ''Close hook locked.'')]"
proof -
  have 0: "run init closing_hooked \<noteq> None"
    by (simp add: closing_hooked_def scenario_defs op_defs)
  then obtain s where s: "run init closing_hooked = Some s" by blast
  have 1: "0 < length (closes s)"
    using s by (auto simp: closing_hooked_def scenario_defs op_defs)
  note inst = hook_acquired_once[OF s 1, of 0 HookRaw "CloseFn 7 3" Undefined]
  have 2: "map c_acquired (closes s) = [[Inr \<lparr>hk_close = 0, hk_signal = 1\<rparr>]]"
    and 3: "length (closes s) = 1" and 4: "length (ctrls s) = 2"
    using s by (auto simp: closing_hooked_def scenario_defs op_defs)
  from 2 3 have 5: "c_acquired (closes s ! 0) = [Inr \<lparr>hk_close = 0, hk_signal = 1\<rparr>]"
    by (cases "closes s") auto
  have 6: "run init (closing_hooked @ [LateAcquire 0]) = step s (LateAcquire 0)"
    using s by (simp add: run_append split: option.splits)
  have 7: "replicate (3 - 1) x = [x, x]" for x :: "jsval + hook"
    by (simp add: numeral_eq_Suc)
  from 3 have 8: "map c_acquired ((closes s)[0 := y]) = [c_acquired y]" for y
    by (cases "closes s") auto
  from inst 0 s 1 2 3 4 5 6 7 8 show ?thesis by simp
qed

text \<open>
  C9. Let the close operation of invocation \<open>k\<close> have taken the hook, and let the hook
  promise be rejected with \<open>e\<close>. The reaction of lines 117 to 121 passes \<open>e\<close> to
  \<open>reportError\<close>, unless the controller of the invocation is aborted with reason \<open>e\<close>,
  in which case nothing is reported. In both cases the reaction and the \<open>finally\<close>
  callback after it leave every \<open>open()\<close> call and every \<open>close()\<close> call as it was, the
  promise in the close field is fulfilled, and the promise that the triggering
  \<open>close()\<close> awaits is untouched: no caller gets \<open>e\<close>.
\<close>

theorem hook_rejection_reported:
  assumes reach: "run init es = Some s"
    and k: "k < length (closes s)"
    and taken: "c_hookPromise (closes s ! k) = Some CatchOfHook"
    and rej: "c_hook (closes s ! k) = Rejected e"
    and fresh: "\<not> c_caught (closes s ! k)"
  shows "\<exists>s1 s2. step s (CloseCatch k) = Some s1 \<and>
           reported s1 =
             (if ctrls s ! c_ctrl (closes s ! k) \<noteq> None \<and> Some e = ctrls s ! c_ctrl (closes s ! k)
              then reported s else reported s @ [e]) \<and>
           tasks s1 = tasks s \<and> ctasks s1 = ctasks s \<and> count s1 = count s \<and>
           c_ret (closes s1 ! k) = c_ret (closes s ! k) \<and>
           step s1 (CloseFinally k) = Some s2 \<and> c_done (closes s2 ! k) \<and>
           closePromise s2 = None \<and>
           tasks s2 = tasks s \<and> ctasks s2 = ctasks s \<and> reported s2 = reported s1 \<and>
           c_ret (closes s2 ! k) = c_ret (closes s ! k)"
proof -
  from slots_run[OF reach slots_init] k fresh have "\<not> c_done (closes s ! k)"
    by (auto simp: slots_ok_def list_all_length)
  with k taken rej fresh show ?thesis
    by (auto simp: close_catch_def close_finally_def Let_def)
qed

theorem hook_rejection_reported_witness:
  "run init (closing_hooked @ [HookSettles 0 (Rejected (Error ''late''))]) \<noteq> None \<and>
   map_option (map c_hookPromise \<circ> closes)
     (run init (closing_hooked @ [HookSettles 0 (Rejected (Error ''late''))]))
     = Some [Some CatchOfHook] \<and>
   map_option (map c_hook \<circ> closes)
     (run init (closing_hooked @ [HookSettles 0 (Rejected (Error ''late''))]))
     = Some [Rejected (Error ''late'')] \<and>
   map_option reported
     (run init (closing_hooked @ [HookSettles 0 (Rejected (Error ''late'')), CloseCatch 0]))
     = Some [Error ''late''] \<and>
   map_option (map ct_phase \<circ> ctasks)
     (run init (closing_hooked @ [HookSettles 0 (Rejected (Error ''late'')), CloseCatch 0,
        CloseFinally 0]))
     = Some [CWait 0] \<and>
   map_option reported
     (run init (closing_hooked @ [CallOpen NoSignal, HookSettles 0 (Rejected (DOMAbort 1)),
        CloseCatch 0]))
     = Some []"
proof -
  let ?tr = "closing_hooked @ [HookSettles 0 (Rejected (Error ''late''))]"
  have 0: "run init ?tr \<noteq> None"
    by (simp add: closing_hooked_def scenario_defs op_defs)
  then obtain s where s: "run init ?tr = Some s" by blast
  have 1: "0 < length (closes s)"
    and 2: "c_hookPromise (closes s ! 0) = Some CatchOfHook"
    and 3: "c_hook (closes s ! 0) = Rejected (Error ''late'')"
    and 4: "\<not> c_caught (closes s ! 0)"
    using s by (auto simp: closing_hooked_def scenario_defs op_defs)
  note inst = hook_rejection_reported[OF s 1 2 3 4]
  have 5: "map_option (map c_hookPromise \<circ> closes) (run init ?tr) = Some [Some CatchOfHook]"
    "map_option (map c_hook \<circ> closes) (run init ?tr) = Some [Rejected (Error ''late'')]"
    "map_option reported
     (run init (closing_hooked @ [HookSettles 0 (Rejected (Error ''late'')), CloseCatch 0]))
     = Some [Error ''late'']"
    "map_option (map ct_phase \<circ> ctasks)
     (run init (closing_hooked @ [HookSettles 0 (Rejected (Error ''late'')), CloseCatch 0,
        CloseFinally 0]))
     = Some [CWait 0]"
    "map_option reported
     (run init (closing_hooked @ [CallOpen NoSignal, HookSettles 0 (Rejected (DOMAbort 1)),
        CloseCatch 0]))
     = Some []"
    by (simp_all add: closing_hooked_def scenario_defs op_defs)
  from inst 0 5 show ?thesis by simp
qed

subsection \<open>Rejection before the increment\<close>

text \<open>
  C10 as stated fails. In \<open>closing\<close> a close is in flight and its controller (index 1) is
  not aborted. An \<open>open()\<close> call that is cancelled while it waits for that close leaves
  the controller aborted, and so changes what the instance does next: without the call
  the close, once settled, clears the open field; with the call it keeps the field.
\<close>

theorem cancelled_open_aborts_close:
  "map_option ctrls (run init closing) = Some [Some (DOMAbort 0), None] \<and>
   map_option ctrls (run init (closing @ [CallOpen Live, AbortCaller 1 (Str ''c''), Cancel 1]))
     = Some [Some (DOMAbort 0), Some (DOMAbort 1)] \<and>
   map_option (map t_phase \<circ> tasks)
       (run init (closing @ [CallOpen Live, AbortCaller 1 (Str ''c''), Cancel 1]))
     = Some [Done (Returned 0), Done (Threw (Str ''c''))] \<and>
   map_option openPromise
       (run init (closing @ [CloseSettles 0 (Fulfilled ()), CloseCatch 0, CloseFinally 0]))
     = Some None \<and>
   map_option openPromise
       (run init (closing @ [CallOpen Live, AbortCaller 1 (Str ''c''), Cancel 1,
          CloseSettles 0 (Fulfilled ()), CloseCatch 0, CloseFinally 0]))
     = Some (Some 0)"
  by (simp add: closing_def opened_once_def scenario_defs op_defs)

text \<open>
  C10, as amended. In every reachable state: an \<open>open()\<close> call whose signal is already
  aborted rejects with the abort reason and changes nothing else. An \<open>open()\<close> call that
  finds a close in flight aborts the controller of that close and suspends; it changes
  nothing else. When the caller's signal then aborts while the call is suspended there,
  the call rejects with the abort reason and changes nothing else. So such a call never
  increments the counter and never invokes the opener, and the five fields of the
  instance keep their values; but the controller of the close stays aborted.
\<close>

theorem rejected_before_increment:
  assumes "run init es = Some s"
  shows "(\<forall>r. step s (CallOpen (Aborted r)) =
              Some (s\<lparr>tasks := tasks s @ [\<lparr> t_signal = Aborted r, t_phase = Done (Threw r) \<rparr>]\<rparr>)) \<and>
         (\<forall>k sg. closePromise s = Some k \<and> (\<forall>r. sg \<noteq> Aborted r) \<longrightarrow>
              step s (CallOpen sg) =
                Some (s\<lparr> ctrls := abort (c_ctrl (closes s ! k)) Undefined (ctrls s),
                         tasks := tasks s @ [\<lparr> t_signal = sg, t_phase = WaitClose k \<rparr>] \<rparr>)) \<and>
         (\<forall>t k r. t < length (tasks s) \<and> t_phase (tasks s ! t) = WaitClose k \<and>
                  t_signal (tasks s ! t) = Aborted r \<longrightarrow>
              step s (Cancel t) =
                Some (s\<lparr>tasks := (tasks s)[t := (tasks s ! t)\<lparr>t_phase := Done (Threw r)\<rparr>]\<rparr>))"
proof -
  have A: "step s (CallOpen (Aborted r)) =
              Some (s\<lparr>tasks := tasks s @ [\<lparr> t_signal = Aborted r, t_phase = Done (Threw r) \<rparr>]\<rparr>)"
    for r
    by (simp add: open_call_def)
  from slots_run[OF assms slots_init] have ok: "slots_ok s" .
  have B: "step s (CallOpen sg) =
                Some (s\<lparr> ctrls := abort (c_ctrl (closes s ! k)) Undefined (ctrls s),
                         tasks := tasks s @ [\<lparr> t_signal = sg, t_phase = WaitClose k \<rparr>] \<rparr>)"
    if "closePromise s = Some k" "\<forall>r. sg \<noteq> Aborted r" for k sg
    using that ok by (cases sg) (auto simp: open_call_def slots_ok_def)
  have C: "step s (Cancel t) =
                Some (s\<lparr>tasks := (tasks s)[t := (tasks s ! t)\<lparr>t_phase := Done (Threw r)\<rparr>]\<rparr>)"
    if "t < length (tasks s)" "t_phase (tasks s ! t) = WaitClose k"
       "t_signal (tasks s ! t) = Aborted r"
    for t k r
    using that by (simp add: cancel_def set_phase_def)
  from A B C show ?thesis by blast
qed

theorem rejected_before_increment_witness:
  "run init closing \<noteq> None \<and>
   closePromise (the (run init closing)) = Some 0 \<and>
   map_option count (run init closing) = Some 0 \<and>
   map_option count (run init (closing @ [CallOpen (Aborted (Str ''x''))])) = Some 0 \<and>
   map_option (map t_phase \<circ> tasks) (run init (closing @ [CallOpen (Aborted (Str ''x''))]))
     = Some [Done (Returned 0), Done (Threw (Str ''x''))] \<and>
   map_option count (run init (closing @ [CallOpen Live])) = Some 0 \<and>
   map_option (length \<circ> opens) (run init (closing @ [CallOpen Live])) = Some 1 \<and>
   map_option (map t_phase \<circ> tasks) (run init (closing @ [CallOpen Live]))
     = Some [Done (Returned 0), WaitClose 0]"
proof -
  have 0: "run init closing \<noteq> None"
    by (simp add: closing_def opened_once_def scenario_defs op_defs)
  then obtain s where s: "run init closing = Some s" by blast
  note inst = rejected_before_increment[OF s]
  have 1: "closePromise s = Some 0" "count s = 0" "length (opens s) = 1"
    "map t_phase (tasks s) = [Done (Returned 0)]"
    using s by (auto simp: closing_def opened_once_def scenario_defs op_defs)
  from inst have a: "step s (CallOpen (Aborted (Str ''x''))) =
      Some (s\<lparr>tasks := tasks s @
        [\<lparr> t_signal = Aborted (Str ''x''), t_phase = Done (Threw (Str ''x'')) \<rparr>]\<rparr>)"
    by blast
  from inst 1(1) have b: "step s (CallOpen Live) =
      Some (s\<lparr> ctrls := abort (c_ctrl (closes s ! 0)) Undefined (ctrls s),
               tasks := tasks s @ [\<lparr> t_signal = Live, t_phase = WaitClose 0 \<rparr>] \<rparr>)"
    by auto
  have 2: "run init (closing @ [CallOpen (Aborted (Str ''x''))]) =
             step s (CallOpen (Aborted (Str ''x'')))"
    and 3: "run init (closing @ [CallOpen Live]) = step s (CallOpen Live)"
    using s by (simp_all add: run_append split: option.splits)
  from 0 s 1 show ?thesis
    unfolding 2 3 a b by simp
qed


end
